theory Spec2Isabelle
  imports Main
begin

section \<open>The betting engine of \<open>engine/poker_game.py\<close>\<close>

text \<open>
  The class \<open>PokerGame\<close> is embedded as a record of its fields and one function per
  method, each taking the engine state and returning the updated one. A Python exception
  is the \<open>Inl\<close> branch of the result. Cards are left out: \<open>Card\<close>, \<open>Deck\<close> and
  \<open>HandEvaluator\<close> live in \<open>engine/cards.py\<close>, no chip amount depends on a card, and
  the list returned by \<open>HandEvaluator.get_winners\<close> is a parameter of the model. The answers
  of the bots are a parameter as well: the list of \<open>(action, amount)\<close> pairs in the order
  in which the engine asks for them.
\<close>

subsection \<open>Data\<close>

type_synonym player = string

text \<open>The members of the enum \<open>PlayerAction\<close> that the engine names.\<close>

datatype PlayerAction = FOLD | CHECK | CALL | RAISE | ALL_IN

datatype error = KeyError | ZeroDivisionError | AttributeError | IndexError

type_synonym decision = "PlayerAction \<times> int"

text \<open>
  The fields of \<open>PokerGame\<close>. \<open>current_player_index\<close> is not set by \<open>__init__\<close>, only by
  \<open>_start_betting_round\<close>: \<open>None\<close> is the missing attribute.
\<close>

record poker_game =
  player_ids :: "player list"
  small_blind :: int
  big_blind :: int
  player_chips :: "player \<rightharpoonup> int"
  player_bets :: "player \<rightharpoonup> int"
  active_players :: "player list"
  folded_players :: "player list"
  pot :: int
  current_bet :: int
  dealer_button :: int
  round_name :: string
  players_acted :: "player set"
  current_player_index :: "int option"

text \<open>The dataclass \<open>GameState\<close> as \<open>get_game_state\<close> fills it (community cards left out).\<close>

record game_state =
  gs_pot :: int
  gs_current_bet :: int
  gs_player_chips :: "player \<rightharpoonup> int"
  gs_player_bets :: "player \<rightharpoonup> int"
  gs_active_players :: "player list"
  gs_current_player :: player
  gs_round_name :: string
  gs_min_bet :: int
  gs_big_blind :: int
  gs_small_blind :: int

subsection \<open>Construction and hand start\<close>

text \<open>The dict comprehension \<open>{player: v for player in ids}\<close>.\<close>

definition dict_of :: "player list \<Rightarrow> int \<Rightarrow> (player \<rightharpoonup> int)" where
  "dict_of ids v = (\<lambda>p. if p \<in> set ids then Some v else None)"

text \<open>\<open>__init__\<close>, from the keys of the \<open>players\<close> dict in their order.\<close>

definition init :: "player list \<Rightarrow> int \<Rightarrow> int \<Rightarrow> int \<Rightarrow> poker_game" where
  "init players starting_chips sb bb =
     \<lparr> player_ids = players, small_blind = sb, big_blind = bb,
       player_chips = dict_of players starting_chips,
       player_bets = dict_of players 0,
       active_players = players, folded_players = [],
       pot = 0, current_bet = 0, dealer_button = 0,
       round_name = ''preflop'', players_acted = {},
       current_player_index = None \<rparr>"

text \<open>The list comprehension \<open>[p for p in ids if chips[p] > 0]\<close>; a missing key raises.\<close>

fun with_chips :: "(player \<rightharpoonup> int) \<Rightarrow> player list \<Rightarrow> error + player list" where
  "with_chips m [] = Inr []"
| "with_chips m (p # ps) =
     (case m p of
        None \<Rightarrow> Inl KeyError
      | Some c \<Rightarrow>
          (case with_chips m ps of
             Inl e \<Rightarrow> Inl e
           | Inr r \<Rightarrow> Inr (if c > 0 then p # r else r)))"

definition reset_hand :: "poker_game \<Rightarrow> error + poker_game" where
  "reset_hand s =
     (case with_chips (player_chips s) (player_ids s) of
        Inl e \<Rightarrow> Inl e
      | Inr act \<Rightarrow>
          Inr (s\<lparr> active_players := act,
                  player_bets := dict_of (player_ids s) 0,
                  folded_players := [],
                  pot := 0,
                  current_bet := big_blind s,
                  round_name := ''preflop'' \<rparr>))"

text \<open>
  One blind of \<open>post_blinds\<close>: the three statements under \<open># Post small blind\<close>, which
  the source repeats under \<open># Post big blind\<close>.
\<close>

definition post_blind :: "poker_game \<Rightarrow> player \<Rightarrow> int \<Rightarrow> error + poker_game" where
  "post_blind s p blind =
     (case player_chips s p of
        None \<Rightarrow> Inl KeyError
      | Some c \<Rightarrow>
          Inr (s\<lparr> player_bets := (player_bets s)(p \<mapsto> min blind c),
                  player_chips := (player_chips s)(p \<mapsto> c - min blind c),
                  pot := pot s + min blind c \<rparr>))"

definition small_blind_player :: "poker_game \<Rightarrow> player" where
  "small_blind_player s =
     active_players s ! nat ((dealer_button s + 1) mod int (length (active_players s)))"

definition big_blind_player :: "poker_game \<Rightarrow> player" where
  "big_blind_player s =
     active_players s ! nat ((dealer_button s + 2) mod int (length (active_players s)))"

definition post_blinds :: "poker_game \<Rightarrow> error + poker_game" where
  "post_blinds s =
     (if length (active_players s) < 2 then Inr s
      else
        (case post_blind s (small_blind_player s) (small_blind s) of
           Inl e \<Rightarrow> Inl e
         | Inr s1 \<Rightarrow> post_blind s1 (big_blind_player s) (big_blind s)))"

text \<open>
  \<open>_start_hand\<close>: \<open>reset_hand\<close>, the deal, \<open>post_blinds\<close>, and the log line, whose
  f-string reads \<open>self.player_ids[self.dealer_button]\<close>: a button outside the seat list
  raises (a negative index counts from the end).
\<close>

definition start_hand :: "poker_game \<Rightarrow> error + poker_game" where
  "start_hand s =
     (case reset_hand s of
        Inl e \<Rightarrow> Inl e
      | Inr s1 \<Rightarrow>
          (case post_blinds s1 of
             Inl e \<Rightarrow> Inl e
           | Inr s2 \<Rightarrow>
               if - int (length (player_ids s2)) \<le> dealer_button s2 \<and>
                  dealer_button s2 < int (length (player_ids s2))
               then Inr s2 else Inl IndexError))"

subsection \<open>The betting round\<close>

definition start_betting_round :: "poker_game \<Rightarrow> error + poker_game" where
  "start_betting_round s =
     (if active_players s = [] then Inl ZeroDivisionError
      else
        Inr ((if round_name s \<noteq> ''preflop''
              then (\<lambda>t. t\<lparr> current_bet := 0, player_bets := dict_of (player_ids s) 0 \<rparr>)
              else (\<lambda>t. t))
             (s\<lparr> players_acted := {},
                 current_player_index :=
                   Some ((dealer_button s + 1) mod int (length (active_players s))) \<rparr>)))"

definition get_current_player :: "poker_game \<Rightarrow> error + player" where
  "get_current_player s =
     (if active_players s = [] then Inr ''''
      else
        (case current_player_index s of
           None \<Rightarrow> Inl AttributeError
         | Some i \<Rightarrow> Inr (active_players s ! nat (i mod int (length (active_players s))))))"

definition get_game_state :: "poker_game \<Rightarrow> error + game_state" where
  "get_game_state s =
     (case get_current_player s of
        Inl e \<Rightarrow> Inl e
      | Inr p \<Rightarrow>
          Inr \<lparr> gs_pot = pot s, gs_current_bet = current_bet s,
                gs_player_chips = player_chips s, gs_player_bets = player_bets s,
                gs_active_players = active_players s, gs_current_player = p,
                gs_round_name = round_name s, gs_min_bet = big_blind s,
                gs_big_blind = big_blind s, gs_small_blind = small_blind s \<rparr>)"

text \<open>\<open>dict.get(key, 0)\<close>.\<close>

definition get_or_0 :: "(player \<rightharpoonup> int) \<Rightarrow> player \<Rightarrow> int" where
  "get_or_0 m p = (case m p of None \<Rightarrow> 0 | Some v \<Rightarrow> v)"

definition is_valid_action :: "poker_game \<Rightarrow> player \<Rightarrow> PlayerAction \<Rightarrow> int \<Rightarrow> bool" where
  "is_valid_action s player action amount =
     (if player \<notin> set (active_players s) then False
      else if player \<in> set (folded_players s) then False
      else
        (case action of
           FOLD \<Rightarrow> True
         | CHECK \<Rightarrow> current_bet s - get_or_0 (player_bets s) player = 0
         | CALL \<Rightarrow> current_bet s - get_or_0 (player_bets s) player > 0
         | RAISE \<Rightarrow>
             amount \<ge> current_bet s + big_blind s \<and>
             get_or_0 (player_chips s) player \<ge> amount - get_or_0 (player_bets s) player
         | ALL_IN \<Rightarrow> get_or_0 (player_chips s) player > 0))"

text \<open>
  The branches of \<open>process_action\<close> after the validity check, on the state in which the
  player is already in \<open>players_acted\<close>; \<open>player_bet\<close> is \<open>self.player_bets[player]\<close>.
\<close>

definition apply_action ::
  "poker_game \<Rightarrow> player \<Rightarrow> PlayerAction \<Rightarrow> int \<Rightarrow> int \<Rightarrow> error + poker_game" where
  "apply_action s player action amount player_bet =
     (case action of
        FOLD \<Rightarrow>
          Inr (s\<lparr> folded_players := folded_players s @ [player],
                  active_players := remove1 player (active_players s) \<rparr>)
      | CHECK \<Rightarrow> Inr s
      | CALL \<Rightarrow>
          (case player_chips s player of
             None \<Rightarrow> Inl KeyError
           | Some chips \<Rightarrow>
               Inr (s\<lparr> player_bets :=
                         (player_bets s)(player \<mapsto> player_bet + min (current_bet s - player_bet) chips),
                       player_chips :=
                         (player_chips s)(player \<mapsto> chips - min (current_bet s - player_bet) chips),
                       pot := pot s + min (current_bet s - player_bet) chips \<rparr>))
      | RAISE \<Rightarrow>
          (case player_chips s player of
             None \<Rightarrow> Inl KeyError
           | Some chips \<Rightarrow>
               if chips \<le> amount - player_bet
               then
                 Inr (s\<lparr> player_bets := (player_bets s)(player \<mapsto> player_bet + chips),
                         pot := pot s + chips,
                         player_chips := (player_chips s)(player \<mapsto> 0),
                         current_bet := max (current_bet s) (player_bet + chips) \<rparr>)
               else
                 Inr (s\<lparr> player_bets := (player_bets s)(player \<mapsto> player_bet + (amount - player_bet)),
                         player_chips := (player_chips s)(player \<mapsto> chips - (amount - player_bet)),
                         pot := pot s + (amount - player_bet),
                         current_bet := player_bet + (amount - player_bet),
                         players_acted := {player} \<rparr>))
      | ALL_IN \<Rightarrow>
          (case player_chips s player of
             None \<Rightarrow> Inl KeyError
           | Some chips \<Rightarrow>
               Inr ((if player_bet + chips > current_bet s
                     then (\<lambda>t. t\<lparr> current_bet := player_bet + chips, players_acted := {player} \<rparr>)
                     else (\<lambda>t. t))
                    (s\<lparr> player_bets := (player_bets s)(player \<mapsto> player_bet + chips),
                        player_chips := (player_chips s)(player \<mapsto> 0),
                        pot := pot s + chips \<rparr>))))"

definition process_action ::
  "poker_game \<Rightarrow> player \<Rightarrow> PlayerAction \<Rightarrow> int \<Rightarrow> error + poker_game" where
  "process_action s player action amount =
     (case player_bets s player of
        None \<Rightarrow> Inl KeyError
      | Some player_bet \<Rightarrow>
          if \<not> is_valid_action s player action amount
          then apply_action (s\<lparr> players_acted := insert player (players_acted s) \<rparr>)
                 player FOLD 0 player_bet
          else apply_action (s\<lparr> players_acted := insert player (players_acted s) \<rparr>)
                 player action amount player_bet)"

definition advance_to_next_player :: "poker_game \<Rightarrow> error + poker_game" where
  "advance_to_next_player s =
     (if active_players s = [] then Inr s
      else
        (case current_player_index s of
           None \<Rightarrow> Inl AttributeError
         | Some i \<Rightarrow>
             Inr (s\<lparr> current_player_index :=
                       Some ((i + 1) mod int (length (active_players s))) \<rparr>)))"

text \<open>The \<open>for\<close> loop of \<open>is_betting_round_complete\<close>, with its early \<open>return False\<close>.\<close>

fun bets_matched ::
  "(player \<rightharpoonup> int) \<Rightarrow> (player \<rightharpoonup> int) \<Rightarrow> int \<Rightarrow> player list \<Rightarrow> error + bool" where
  "bets_matched chips bets max_bet [] = Inr True"
| "bets_matched chips bets max_bet (p # ps) =
     (case chips p of
        None \<Rightarrow> Inl KeyError
      | Some c \<Rightarrow>
          if c > 0
          then (case bets p of
                  None \<Rightarrow> Inl KeyError
                | Some b \<Rightarrow>
                    if b \<noteq> max_bet then Inr False
                    else bets_matched chips bets max_bet ps)
          else bets_matched chips bets max_bet ps)"

definition is_betting_round_complete :: "poker_game \<Rightarrow> error + bool" where
  "is_betting_round_complete s =
     (if length (active_players s) \<le> 1 then Inr True
      else if card (players_acted s) < length (active_players s) then Inr False
      else bets_matched (player_chips s) (player_bets s) (current_bet s) (active_players s))"

text \<open>
  One pass of the \<open>while\<close> body of \<open>_run_betting_round\<close> for the current player
  \<open>player_id\<close> and the bot's answer \<open>d\<close>. The lookups before the bot is asked
  (\<open>get_game_state\<close>, \<open>max_bet\<close>) only matter through the exceptions they can raise;
  \<open>get_legal_actions\<close> reads the same two dict entries as \<open>max_bet\<close>, and
  \<open>player_bots\<close> has a bot for every seat.
\<close>

definition betting_step :: "poker_game \<Rightarrow> player \<Rightarrow> decision \<Rightarrow> error + poker_game" where
  "betting_step s player_id d =
     (case get_game_state s of
        Inl e \<Rightarrow> Inl e
      | Inr gs \<Rightarrow>
          (case player_chips s player_id of
             None \<Rightarrow> Inl KeyError
           | Some c \<Rightarrow>
               (case player_bets s player_id of
                  None \<Rightarrow> Inl KeyError
                | Some b \<Rightarrow>
                    (case process_action s player_id (fst d) (snd d) of
                       Inl e \<Rightarrow> Inl e
                     | Inr s1 \<Rightarrow> advance_to_next_player s1))))"

text \<open>
  The \<open>while\<close> loop. It consumes one answer per pass and returns the answers left over;
  \<open>None\<close> means that the answers ran out before the round was complete.
\<close>

fun betting_loop ::
  "poker_game \<Rightarrow> decision list \<Rightarrow> (error + poker_game \<times> decision list) option" where
  "betting_loop s [] =
     (case is_betting_round_complete s of
        Inl e \<Rightarrow> Some (Inl e)
      | Inr True \<Rightarrow> Some (Inr (s, []))
      | Inr False \<Rightarrow>
          (case get_current_player s of
             Inl e \<Rightarrow> Some (Inl e)
           | Inr player_id \<Rightarrow> if player_id = [] then Some (Inr (s, [])) else None))"
| "betting_loop s (d # ds) =
     (case is_betting_round_complete s of
        Inl e \<Rightarrow> Some (Inl e)
      | Inr True \<Rightarrow> Some (Inr (s, d # ds))
      | Inr False \<Rightarrow>
          (case get_current_player s of
             Inl e \<Rightarrow> Some (Inl e)
           | Inr player_id \<Rightarrow>
               if player_id = [] then Some (Inr (s, d # ds))
               else
                 (case betting_step s player_id d of
                    Inl e \<Rightarrow> Some (Inl e)
                  | Inr s' \<Rightarrow> betting_loop s' ds)))"

definition run_betting_round ::
  "poker_game \<Rightarrow> decision list \<Rightarrow> (error + poker_game \<times> decision list) option" where
  "run_betting_round s ds =
     (case start_betting_round s of
        Inl e \<Rightarrow> Some (Inl e)
      | Inr s1 \<Rightarrow> betting_loop s1 ds)"

subsection \<open>Streets, showdown and payout\<close>

text \<open>\<open>advance_to_next_round\<close>; the cards it deals are not part of the model.\<close>

definition advance_to_next_round :: "poker_game \<Rightarrow> poker_game" where
  "advance_to_next_round s =
     (if round_name s = ''preflop'' then s\<lparr> round_name := ''flop'' \<rparr>
      else if round_name s = ''flop'' then s\<lparr> round_name := ''turn'' \<rparr>
      else if round_name s = ''turn'' then s\<lparr> round_name := ''river'' \<rparr>
      else if round_name s = ''river'' then s\<lparr> round_name := ''showdown'' \<rparr>
      else s)"

text \<open>\<open>determine_winners\<close>; \<open>evaluated\<close> is what \<open>HandEvaluator.get_winners\<close> returns.\<close>

definition determine_winners :: "poker_game \<Rightarrow> player list \<Rightarrow> player list" where
  "determine_winners s evaluated =
     (if length (active_players s) = 1 then active_players s else evaluated)"

text \<open>The \<open>for\<close> loop of \<open>_distribute_pot\<close>.\<close>

fun pay_winners :: "(player \<rightharpoonup> int) \<Rightarrow> int \<Rightarrow> player list \<Rightarrow> error + (player \<rightharpoonup> int)" where
  "pay_winners m winnings_per_player [] = Inr m"
| "pay_winners m winnings_per_player (winner # ws) =
     (case m winner of
        None \<Rightarrow> Inl KeyError
      | Some c \<Rightarrow> pay_winners (m(winner \<mapsto> c + winnings_per_player)) winnings_per_player ws)"

definition distribute_pot :: "poker_game \<Rightarrow> player list \<Rightarrow> error + poker_game" where
  "distribute_pot s winners =
     (if winners = [] then Inr s
      else
        (case pay_winners (player_chips s) (pot s div int (length winners)) winners of
           Inl e \<Rightarrow> Inl e
         | Inr m \<Rightarrow> Inr (s\<lparr> player_chips := m, pot := 0 \<rparr>)))"

text \<open>
  One street of \<open>play_hand\<close>: the guard \<open>len(self.active_players) > 1\<close>, the advance to
  the next round on every street but the first, and the betting round.
\<close>

definition street ::
  "bool \<Rightarrow> poker_game \<Rightarrow> decision list \<Rightarrow> (error + poker_game \<times> decision list) option" where
  "street advance s ds =
     (if length (active_players s) > 1
      then run_betting_round (if advance then advance_to_next_round s else s) ds
      else Some (Inr (s, ds)))"

definition and_then ::
  "(error + poker_game \<times> decision list) option \<Rightarrow>
   (poker_game \<Rightarrow> decision list \<Rightarrow> (error + 'a) option) \<Rightarrow> (error + 'a) option" where
  "and_then r f =
     (case r of
        None \<Rightarrow> None
      | Some (Inl e) \<Rightarrow> Some (Inl e)
      | Some (Inr (s, ds)) \<Rightarrow> f s ds)"

text \<open>\<open>play_hand\<close> up to the line \<open># Showdown\<close>.\<close>

definition play_streets ::
  "poker_game \<Rightarrow> decision list \<Rightarrow> (error + poker_game \<times> decision list) option" where
  "play_streets s ds =
     (case start_hand s of
        Inl e \<Rightarrow> Some (Inl e)
      | Inr s0 \<Rightarrow>
          and_then (and_then (and_then (street False s0 ds) (street True)) (street True))
            (street True))"

text \<open>The rest of \<open>play_hand\<close>: winners, payout, and the dealer button moved on.\<close>

definition settle :: "poker_game \<Rightarrow> player list \<Rightarrow> error + poker_game" where
  "settle s evaluated =
     (case distribute_pot s (determine_winners s evaluated) of
        Inl e \<Rightarrow> Inl e
      | Inr s1 \<Rightarrow>
          if player_ids s1 = [] then Inl ZeroDivisionError
          else Inr (s1\<lparr> dealer_button :=
                         (dealer_button s1 + 1) mod int (length (player_ids s1)) \<rparr>))"

text \<open>
  \<open>play_hand\<close>. The source returns the dict \<open>self.player_chips\<close>; the model returns the
  engine state, whose field \<open>player_chips\<close> is that dict.
\<close>

definition play_hand ::
  "poker_game \<Rightarrow> decision list \<Rightarrow> player list \<Rightarrow> (error + poker_game) option" where
  "play_hand s ds evaluated =
     and_then (play_streets s ds) (\<lambda>s1 ds1. Some (settle s1 evaluated))"

subsection \<open>The validation helper of \<open>bot_api.py\<close>\<close>

definition validate_action ::
  "PlayerAction \<Rightarrow> int \<Rightarrow> game_state \<Rightarrow> player \<Rightarrow> error + bool" where
  "validate_action action amount gs player_name =
     (if player_name \<notin> set (gs_active_players gs) then Inr False
      else if player_name \<noteq> gs_current_player gs then Inr False
      else
        (case gs_player_chips gs player_name of
           None \<Rightarrow> Inl KeyError
         | Some chips \<Rightarrow>
             (case gs_player_bets gs player_name of
                None \<Rightarrow> Inl KeyError
              | Some player_bet \<Rightarrow>
                  Inr (case action of
                         FOLD \<Rightarrow> True
                       | CHECK \<Rightarrow> gs_current_bet gs - player_bet = 0
                       | CALL \<Rightarrow>
                           gs_current_bet gs - player_bet > 0 \<and>
                           chips \<ge> gs_current_bet gs - player_bet
                       | RAISE \<Rightarrow>
                           amount \<ge> gs_current_bet gs + gs_big_blind gs \<and>
                           chips \<ge> amount - player_bet \<and>
                           amount > gs_current_bet gs
                       | ALL_IN \<Rightarrow> chips > 0))))"

subsection \<open>Sums of stacks and the states of a hand\<close>

text \<open>The sum of a dict's values over the seated players.\<close>

definition dict_sum :: "(player \<rightharpoonup> int) \<Rightarrow> player list \<Rightarrow> int" where
  "dict_sum m ids = sum_list (map (get_or_0 m) ids)"

definition chips_sum :: "poker_game \<Rightarrow> int" where
  "chips_sum s = dict_sum (player_chips s) (player_ids s)"

definition bets_sum :: "poker_game \<Rightarrow> int" where
  "bets_sum s = dict_sum (player_bets s) (player_ids s)"

text \<open>
  The engine between two hands: the seats are the keys of both dicts, as \<open>__init__\<close>
  builds them.
\<close>

definition seated :: "poker_game \<Rightarrow> bool" where
  "seated s =
     (distinct (player_ids s) \<and> dom (player_chips s) = set (player_ids s) \<and>
      dom (player_bets s) = set (player_ids s))"

text \<open>
  The states of one hand that starts in \<open>s0\<close>, from the posting of the blinds to the
  end of the betting: every method that \<open>play_hand\<close> calls there, in any order, with any
  player, action and amount.
\<close>

inductive in_hand :: "poker_game \<Rightarrow> poker_game \<Rightarrow> bool" for s0 :: poker_game where
  started: "start_hand s0 = Inr s \<Longrightarrow> in_hand s0 s"
| round_started: "in_hand s0 s \<Longrightarrow> start_betting_round s = Inr s' \<Longrightarrow> in_hand s0 s'"
| acted: "in_hand s0 s \<Longrightarrow> process_action s p a amount = Inr s' \<Longrightarrow> in_hand s0 s'"
| next_player: "in_hand s0 s \<Longrightarrow> advance_to_next_player s = Inr s' \<Longrightarrow> in_hand s0 s'"
| next_round: "in_hand s0 s \<Longrightarrow> in_hand s0 (advance_to_next_round s)"

text \<open>
  Every state of a hand that starts in \<open>s0\<close>: the state after \<open>reset_hand\<close>, the states
  of the betting, and the state after the payout.
\<close>

inductive during_hand :: "poker_game \<Rightarrow> poker_game \<Rightarrow> bool" for s0 :: poker_game where
  reset: "reset_hand s0 = Inr s \<Longrightarrow> during_hand s0 s"
| betting: "in_hand s0 s \<Longrightarrow> during_hand s0 s"
| paid: "in_hand s0 s \<Longrightarrow> distribute_pot s winners = Inr s' \<Longrightarrow> during_hand s0 s'"
| settled: "in_hand s0 s \<Longrightarrow> settle s evaluated = Inr s' \<Longrightarrow> during_hand s0 s'"

text \<open>
  Two invariants of the states of a hand, used in the proofs: the seats and the configured
  blinds stay those of the start, and no stack, bet or blind is negative while the bets of
  the round are covered by the pot.
\<close>

definition table_kept :: "poker_game \<Rightarrow> poker_game \<Rightarrow> bool" where
  "table_kept s0 s =
     (seated s \<and> player_ids s = player_ids s0 \<and> small_blind s = small_blind s0 \<and>
      big_blind s = big_blind s0)"

definition stakes_ok :: "poker_game \<Rightarrow> bool" where
  "stakes_ok s =
     (0 \<le> big_blind s \<and> 0 \<le> current_bet s \<and>
      (\<forall>p c. player_chips s p = Some c \<longrightarrow> 0 \<le> c) \<and>
      (\<forall>p b. player_bets s p = Some b \<longrightarrow> 0 \<le> b) \<and>
      bets_sum s \<le> pot s)"

subsection \<open>Example hands\<close>

text \<open>
  The states below are written out field by field; the lemmas of the last section show
  that the engine computes them. First, a pot of 100 to be split between three players.
\<close>

definition three_way_tie :: poker_game where
  "three_way_tie =
     (init [''P0'', ''P1'', ''P2''] 1000 10 20)
       \<lparr> player_chips := [''P0'' \<mapsto> 960, ''P1'' \<mapsto> 970, ''P2'' \<mapsto> 970], pot := 100 \<rparr>"

text \<open>
  Three players with 1000 chips each, blinds 10 and 20, dealer button 0: the table as
  \<open>__init__\<close> builds it, after \<open>_start_hand\<close>, and after \<open>_start_betting_round\<close>.
\<close>

definition three_players :: poker_game where
  "three_players = init [''P0'', ''P1'', ''P2''] 1000 10 20"

definition after_blinds :: poker_game where
  "after_blinds =
     three_players
       \<lparr> player_chips := [''P0'' \<mapsto> 1000, ''P1'' \<mapsto> 990, ''P2'' \<mapsto> 980],
         player_bets := [''P0'' \<mapsto> 0, ''P1'' \<mapsto> 10, ''P2'' \<mapsto> 20],
         pot := 30, current_bet := 20 \<rparr>"

definition preflop_open :: poker_game where
  "preflop_open = after_blinds \<lparr> players_acted := {}, current_player_index := Some 1 \<rparr>"

text \<open>From there: P1 goes all-in; P1 asks to check with 10 to call and is folded.\<close>

definition p1_all_in :: poker_game where
  "p1_all_in =
     preflop_open
       \<lparr> player_chips := [''P0'' \<mapsto> 1000, ''P1'' \<mapsto> 0, ''P2'' \<mapsto> 980],
         player_bets := [''P0'' \<mapsto> 0, ''P1'' \<mapsto> 1000, ''P2'' \<mapsto> 20],
         pot := 1020, current_bet := 1000, players_acted := {''P1''} \<rparr>"

definition p1_checks_folded :: poker_game where
  "p1_checks_folded =
     preflop_open \<lparr> players_acted := {''P1''}, folded_players := [''P1''],
                    active_players := [''P0'', ''P2''] \<rparr>"

text \<open>From there: P1 calls, P2 checks, P0 calls; each state is the one after the turn moved on.\<close>

definition limp1 :: poker_game where
  "limp1 =
     preflop_open
       \<lparr> player_chips := [''P0'' \<mapsto> 1000, ''P1'' \<mapsto> 980, ''P2'' \<mapsto> 980],
         player_bets := [''P0'' \<mapsto> 0, ''P1'' \<mapsto> 20, ''P2'' \<mapsto> 20],
         pot := 40, players_acted := {''P1''}, current_player_index := Some 2 \<rparr>"

definition limp2 :: poker_game where
  "limp2 = limp1 \<lparr> players_acted := {''P2'', ''P1''}, current_player_index := Some 0 \<rparr>"

definition limp3 :: poker_game where
  "limp3 =
     limp2
       \<lparr> player_chips := [''P0'' \<mapsto> 980, ''P1'' \<mapsto> 980, ''P2'' \<mapsto> 980],
         player_bets := [''P0'' \<mapsto> 20, ''P1'' \<mapsto> 20, ''P2'' \<mapsto> 20],
         pot := 60, players_acted := {''P0'', ''P2'', ''P1''},
         current_player_index := Some 1 \<rparr>"

text \<open>From there: P1 folds, then P0 calls.\<close>

definition p1_folded :: poker_game where
  "p1_folded =
     preflop_open
       \<lparr> active_players := [''P0'', ''P2''], folded_players := [''P1''],
         players_acted := {''P1''}, current_player_index := Some 0 \<rparr>"

definition big_blind_skipped :: poker_game where
  "big_blind_skipped =
     p1_folded
       \<lparr> player_chips := [''P0'' \<mapsto> 980, ''P1'' \<mapsto> 990, ''P2'' \<mapsto> 980],
         player_bets := [''P0'' \<mapsto> 20, ''P1'' \<mapsto> 10, ''P2'' \<mapsto> 20],
         pot := 50, players_acted := {''P0'', ''P1''}, current_player_index := Some 1 \<rparr>"

text \<open>
  The \<open>GameState\<close> that the engine hands out before the first action, and the state
  after P0 calls although it is P1's turn.
\<close>

definition preflop_view :: game_state where
  "preflop_view =
     \<lparr> gs_pot = 30, gs_current_bet = 20,
       gs_player_chips = [''P0'' \<mapsto> 1000, ''P1'' \<mapsto> 990, ''P2'' \<mapsto> 980],
       gs_player_bets = [''P0'' \<mapsto> 0, ''P1'' \<mapsto> 10, ''P2'' \<mapsto> 20],
       gs_active_players = [''P0'', ''P1'', ''P2''], gs_current_player = ''P1'',
       gs_round_name = ''preflop'', gs_min_bet = 20, gs_big_blind = 20,
       gs_small_blind = 10 \<rparr>"

definition out_of_turn :: poker_game where
  "out_of_turn =
     preflop_open
       \<lparr> player_chips := [''P0'' \<mapsto> 980, ''P1'' \<mapsto> 990, ''P2'' \<mapsto> 980],
         player_bets := [''P0'' \<mapsto> 20, ''P1'' \<mapsto> 10, ''P2'' \<mapsto> 20],
         pot := 50, players_acted := {''P0''} \<rparr>"

text \<open>
  Heads-up, P0 with 100 chips and P1 with 30, blinds 10 and 20: the table, after the blinds,
  after P1 went all-in and the turn moved on, and after P0 raised to 100.
\<close>

definition short_table :: poker_game where
  "short_table =
     (init [''P0'', ''P1''] 100 10 20) \<lparr> player_chips := [''P0'' \<mapsto> 100, ''P1'' \<mapsto> 30] \<rparr>"

definition short_blinds :: poker_game where
  "short_blinds =
     short_table
       \<lparr> player_chips := [''P0'' \<mapsto> 80, ''P1'' \<mapsto> 20],
         player_bets := [''P0'' \<mapsto> 20, ''P1'' \<mapsto> 10],
         pot := 30, current_bet := 20 \<rparr>"

definition short_shove :: poker_game where
  "short_shove =
     short_blinds
       \<lparr> player_chips := [''P0'' \<mapsto> 80, ''P1'' \<mapsto> 0],
         player_bets := [''P0'' \<mapsto> 20, ''P1'' \<mapsto> 30],
         pot := 50, current_bet := 30, players_acted := {''P1''},
         current_player_index := Some 0 \<rparr>"

definition short_raise :: poker_game where
  "short_raise =
     short_shove
       \<lparr> player_chips := [''P0'' \<mapsto> 0, ''P1'' \<mapsto> 0],
         player_bets := [''P0'' \<mapsto> 100, ''P1'' \<mapsto> 30],
         pot := 130, current_bet := 100, players_acted := {''P0'', ''P1''} \<rparr>"

text \<open>
  Three players with 1000 chips each and blinds 5 and 10: P1 folds, P0 calls, and P2 and P0
  check on the flop, the turn and the river. The state at the showdown, and the state after
  the pot of 25 was split between P0 and P2.
\<close>

definition five_ten :: poker_game where
  "five_ten = init [''P0'', ''P1'', ''P2''] 1000 5 10"

definition five_ten_showdown :: poker_game where
  "five_ten_showdown =
     five_ten
       \<lparr> active_players := [''P0'', ''P2''], folded_players := [''P1''],
         player_chips := [''P0'' \<mapsto> 990, ''P1'' \<mapsto> 995, ''P2'' \<mapsto> 990],
         player_bets := [''P0'' \<mapsto> 0, ''P1'' \<mapsto> 0, ''P2'' \<mapsto> 0],
         pot := 25, current_bet := 0, round_name := ''river'',
         players_acted := {''P0'', ''P2''}, current_player_index := Some 1 \<rparr>"

definition five_ten_paid :: poker_game where
  "five_ten_paid =
     five_ten_showdown
       \<lparr> player_chips := [''P0'' \<mapsto> 1002, ''P1'' \<mapsto> 995, ''P2'' \<mapsto> 1002],
         pot := 0, dealer_button := 1 \<rparr>"

definition fold_call_check_down :: "decision list" where
  "fold_call_check_down =
     [(FOLD, 0), (CALL, 0), (CHECK, 0), (CHECK, 0), (CHECK, 0), (CHECK, 0), (CHECK, 0),
      (CHECK, 0)]"





section \<open>Properties\<close>

subsection \<open>Sums over a dict\<close>

lemma get_or_0_upd: "get_or_0 (m(p \<mapsto> v)) q = (if q = p then v else get_or_0 m q)"
  by (simp add: get_or_0_def)

lemma dict_sum_Nil: "dict_sum m [] = 0"
  by (simp add: dict_sum_def)

lemma dict_sum_Cons: "dict_sum m (q # qs) = get_or_0 m q + dict_sum m qs"
  by (simp add: dict_sum_def)

lemma dict_sum_upd_notin: "p \<notin> set ids \<Longrightarrow> dict_sum (m(p \<mapsto> v)) ids = dict_sum m ids"
  by (induction ids) (auto simp: dict_sum_Nil dict_sum_Cons get_or_0_upd)

lemma dict_sum_upd_in:
  "distinct ids \<Longrightarrow> p \<in> set ids \<Longrightarrow> dict_sum (m(p \<mapsto> v)) ids = dict_sum m ids + v - get_or_0 m p"
  by (induction ids) (auto simp: dict_sum_Nil dict_sum_Cons get_or_0_upd dict_sum_upd_notin)

lemma dict_sum_dict_of_0: "dict_sum (dict_of ids' 0) ids = 0"
  by (induction ids) (simp_all add: dict_sum_Nil dict_sum_Cons get_or_0_def dict_of_def)

lemma dict_sum_nonneg: "(\<And>p c. m p = Some c \<Longrightarrow> 0 \<le> c) \<Longrightarrow> 0 \<le> dict_sum m ids"
  by (induction ids) (auto simp: dict_sum_Nil dict_sum_Cons get_or_0_def split: option.splits)

lemma with_chips_Inr:
  "with_chips m ids = Inr act \<Longrightarrow> act = filter (\<lambda>p. get_or_0 m p > 0) ids \<and> set ids \<subseteq> dom m"
  by (induction ids arbitrary: act) (auto simp: get_or_0_def split: option.splits sum.splits)

lemma with_chips_filter:
  "set ids \<subseteq> dom m \<Longrightarrow> with_chips m ids = Inr (filter (\<lambda>p. get_or_0 m p > 0) ids)"
  by (induction ids) (auto simp: get_or_0_def split: option.splits)

subsection \<open>What one action changes\<close>

lemma process_action_frame:
  assumes "process_action s p a amount = Inr s'"
  shows "player_ids s' = player_ids s \<and> small_blind s' = small_blind s \<and>
         big_blind s' = big_blind s \<and> dealer_button s' = dealer_button s \<and>
         round_name s' = round_name s"
  using assms
  by (auto simp: process_action_def apply_action_def
           split: option.splits if_splits PlayerAction.splits)

lemma process_action_effect:
  assumes "process_action s p a amount = Inr s'"
  obtains
    (still) "player_chips s' = player_chips s" "player_bets s' = player_bets s"
      "pot s' = pot s" "current_bet s' = current_bet s"
  | (moved) b c x where "player_bets s p = Some b" "player_chips s p = Some c" "x \<le> c"
      "player_chips s' = (player_chips s)(p \<mapsto> c - x)"
      "player_bets s' = (player_bets s)(p \<mapsto> b + x)"
      "pot s' = pot s + x"
      "0 \<le> c \<Longrightarrow> 0 \<le> b \<Longrightarrow> 0 \<le> current_bet s \<Longrightarrow> 0 \<le> big_blind s \<Longrightarrow> 0 \<le> b + x \<and> 0 \<le> current_bet s'"
proof -
  from assms obtain b where b: "player_bets s p = Some b"
    by (auto simp: process_action_def split: option.splits)
  define t where "t = s\<lparr> players_acted := insert p (players_acted s) \<rparr>"
  show thesis
  proof (cases "is_valid_action s p a amount")
    case False
    with assms b have "player_chips s' = player_chips s" "player_bets s' = player_bets s"
      "pot s' = pot s" "current_bet s' = current_bet s"
      by (auto simp: process_action_def apply_action_def)
    then show thesis by (rule still)
  next
    case True
    with assms b have ap: "apply_action t p a amount b = Inr s'"
      by (simp add: process_action_def t_def)
    show thesis
    proof (cases a)
      case FOLD
      with ap have "player_chips s' = player_chips s" "player_bets s' = player_bets s"
        "pot s' = pot s" "current_bet s' = current_bet s"
        by (auto simp: apply_action_def t_def)
      then show thesis by (rule still)
    next
      case CHECK
      with ap have "player_chips s' = player_chips s" "player_bets s' = player_bets s"
        "pot s' = pot s" "current_bet s' = current_bet s"
        by (auto simp: apply_action_def t_def)
      then show thesis by (rule still)
    next
      case CALL
      with ap obtain c where c: "player_chips s p = Some c"
        by (auto simp: apply_action_def t_def split: option.splits)
      from True CALL b have pos: "0 < current_bet s - b"
        by (simp add: is_valid_action_def get_or_0_def split: if_splits)
      show thesis
      proof (rule moved [OF b c, of "min (current_bet s - b) c"])
        show "min (current_bet s - b) c \<le> c" by simp
        show "player_chips s' = (player_chips s)(p \<mapsto> c - min (current_bet s - b) c)"
          using ap CALL c by (auto simp: apply_action_def t_def)
        show "player_bets s' = (player_bets s)(p \<mapsto> b + min (current_bet s - b) c)"
          using ap CALL c by (auto simp: apply_action_def t_def)
        show "pot s' = pot s + min (current_bet s - b) c"
          using ap CALL c by (auto simp: apply_action_def t_def)
        show "0 \<le> b + min (current_bet s - b) c \<and> 0 \<le> current_bet s'"
          if "0 \<le> c" "0 \<le> b" "0 \<le> current_bet s" "0 \<le> big_blind s"
          using that ap CALL c pos by (auto simp: apply_action_def t_def)
      qed
    next
      case RAISE
      with ap obtain c where c: "player_chips s p = Some c"
        by (auto simp: apply_action_def t_def split: option.splits)
      from True RAISE b c have v: "current_bet s + big_blind s \<le> amount" "amount - b \<le> c"
        by (simp_all add: is_valid_action_def get_or_0_def split: if_splits)
      show thesis
      proof (cases "c \<le> amount - b")
        case True
        show thesis
        proof (rule moved [OF b c, of c])
          show "c \<le> c" by simp
          show "player_chips s' = (player_chips s)(p \<mapsto> c - c)"
            using ap RAISE c True by (auto simp: apply_action_def t_def)
          show "player_bets s' = (player_bets s)(p \<mapsto> b + c)"
            using ap RAISE c True by (auto simp: apply_action_def t_def)
          show "pot s' = pot s + c"
            using ap RAISE c True by (auto simp: apply_action_def t_def)
          show "0 \<le> b + c \<and> 0 \<le> current_bet s'"
            if "0 \<le> c" "0 \<le> b" "0 \<le> current_bet s" "0 \<le> big_blind s"
            using that ap RAISE c True v by (auto simp: apply_action_def t_def)
        qed
      next
        case False
        show thesis
        proof (rule moved [OF b c, of "amount - b"])
          show "amount - b \<le> c" using False by simp
          show "player_chips s' = (player_chips s)(p \<mapsto> c - (amount - b))"
            using ap RAISE c False by (auto simp: apply_action_def t_def)
          show "player_bets s' = (player_bets s)(p \<mapsto> b + (amount - b))"
            using ap RAISE c False by (auto simp: apply_action_def t_def)
          show "pot s' = pot s + (amount - b)"
            using ap RAISE c False by (auto simp: apply_action_def t_def)
          show "0 \<le> b + (amount - b) \<and> 0 \<le> current_bet s'"
            if "0 \<le> c" "0 \<le> b" "0 \<le> current_bet s" "0 \<le> big_blind s"
            using that ap RAISE c False v by (auto simp: apply_action_def t_def)
        qed
      qed
    next
      case ALL_IN
      with ap obtain c where c: "player_chips s p = Some c"
        by (auto simp: apply_action_def t_def split: option.splits)
      show thesis
      proof (rule moved [OF b c, of c])
        show "c \<le> c" by simp
        show "player_chips s' = (player_chips s)(p \<mapsto> c - c)"
          using ap ALL_IN c by (auto simp: apply_action_def t_def split: if_splits)
        show "player_bets s' = (player_bets s)(p \<mapsto> b + c)"
          using ap ALL_IN c by (auto simp: apply_action_def t_def split: if_splits)
        show "pot s' = pot s + c"
          using ap ALL_IN c by (auto simp: apply_action_def t_def split: if_splits)
        show "0 \<le> b + c \<and> 0 \<le> current_bet s'"
          if "0 \<le> c" "0 \<le> b" "0 \<le> current_bet s" "0 \<le> big_blind s"
          using that ap ALL_IN c by (auto simp: apply_action_def t_def split: if_splits)
      qed
    qed
  qed
qed

lemma seated_moved:
  assumes "seated s" "player_chips s p = Some c" "player_ids s' = player_ids s"
    "player_chips s' = (player_chips s)(p \<mapsto> v)" "player_bets s' = (player_bets s)(p \<mapsto> w)"
  shows "seated s'"
proof -
  from assms(1,2) have "p \<in> dom (player_chips s)" "p \<in> dom (player_bets s)"
    by (auto simp: seated_def)
  with assms show ?thesis
    by (simp add: seated_def insert_absorb)
qed

lemma sums_moved:
  assumes "seated s" "player_chips s p = Some c" "player_ids s' = player_ids s"
    "player_chips s' = (player_chips s)(p \<mapsto> v)" "player_bets s' = (player_bets s)(p \<mapsto> w)"
  shows "chips_sum s' = chips_sum s + v - c"
    and "bets_sum s' = bets_sum s + w - get_or_0 (player_bets s) p"
proof -
  from assms(1,2) have p: "distinct (player_ids s)" "p \<in> set (player_ids s)"
    by (auto simp: seated_def)
  from assms(2) have "get_or_0 (player_chips s) p = c" by (simp add: get_or_0_def)
  with p assms(3,4) show "chips_sum s' = chips_sum s + v - c"
    by (simp add: chips_sum_def dict_sum_upd_in)
  from p assms(3,5) show "bets_sum s' = bets_sum s + w - get_or_0 (player_bets s) p"
    by (simp add: bets_sum_def dict_sum_upd_in)
qed

lemma seated_same:
  assumes "seated s" "player_ids s' = player_ids s"
    "player_chips s' = player_chips s" "player_bets s' = player_bets s"
  shows "seated s'"
  using assms by (simp add: seated_def)

lemma process_action_seated:
  assumes "seated s" "process_action s p a amount = Inr s'"
  shows "seated s'"
  using assms(2)
proof (cases rule: process_action_effect)
  case still
  with assms process_action_frame [OF assms(2)] show ?thesis
    by (simp add: seated_def)
next
  case (moved b c x)
  with assms process_action_frame [OF assms(2)] show ?thesis
    by (intro seated_moved [of s p c s']) simp_all
qed

lemma process_action_sums:
  assumes "seated s" "process_action s p a amount = Inr s'"
  shows "pot s' + chips_sum s' = pot s + chips_sum s \<and>
         pot s' - bets_sum s' = pot s - bets_sum s"
  using assms(2)
proof (cases rule: process_action_effect)
  case still
  with process_action_frame [OF assms(2)] show ?thesis
    by (simp add: chips_sum_def bets_sum_def)
next
  case (moved b c x)
  from process_action_frame [OF assms(2)] have ids: "player_ids s' = player_ids s" by simp
  from moved(1) have "get_or_0 (player_bets s) p = b" by (simp add: get_or_0_def)
  with sums_moved [OF assms(1) moved(2) ids moved(4) moved(5)] moved(6)
  show ?thesis by simp
qed


subsection \<open>Reset and blinds\<close>

lemma dom_dict_of: "dom (dict_of ids v) = set ids"
  by (auto simp: dict_of_def split: if_splits)

lemma reset_hand_effect:
  assumes "reset_hand s0 = Inr s"
  shows "player_ids s = player_ids s0 \<and> small_blind s = small_blind s0 \<and>
         big_blind s = big_blind s0 \<and> dealer_button s = dealer_button s0 \<and>
         player_chips s = player_chips s0 \<and> player_bets s = dict_of (player_ids s0) 0 \<and>
         pot s = 0 \<and> current_bet s = big_blind s0 \<and>
         active_players s = filter (\<lambda>p. get_or_0 (player_chips s0) p > 0) (player_ids s0)"
  using assms
  by (auto simp: reset_hand_def split: sum.splits dest: with_chips_Inr)

lemma reset_hand_seated:
  assumes "seated s0" "reset_hand s0 = Inr s"
  shows "seated s"
  using assms(1) reset_hand_effect [OF assms(2)]
  by (simp add: seated_def dom_dict_of)

lemma post_blind_effect:
  assumes "post_blind s p blind = Inr s'"
  obtains c where "player_chips s p = Some c"
    "player_chips s' = (player_chips s)(p \<mapsto> c - min blind c)"
    "player_bets s' = (player_bets s)(p \<mapsto> min blind c)"
    "pot s' = pot s + min blind c"
    "player_ids s' = player_ids s" "small_blind s' = small_blind s"
    "big_blind s' = big_blind s" "current_bet s' = current_bet s"
    "active_players s' = active_players s" "dealer_button s' = dealer_button s"
  using assms
  by (auto simp: post_blind_def split: option.splits)

lemma post_blind_kept:
  assumes "seated s" "post_blind s p blind = Inr s'"
  shows "seated s' \<and> pot s' + chips_sum s' = pot s + chips_sum s"
  using assms(2)
proof (cases rule: post_blind_effect)
  case (1 c)
  from seated_moved [OF assms(1) 1(1) 1(5) 1(2) 1(3)]
    sums_moved(1) [OF assms(1) 1(1) 1(5) 1(2) 1(3)] 1(4)
  show ?thesis by simp
qed

lemma post_blind_stakes:
  assumes "seated s" "stakes_ok s" "0 \<le> blind" "post_blind s p blind = Inr s'"
  shows "stakes_ok s'"
  using assms(4)
proof (cases rule: post_blind_effect)
  case (1 c)
  from assms(2) 1(1) have c: "0 \<le> c" by (auto simp: stakes_ok_def)
  from assms(2) have old: "0 \<le> get_or_0 (player_bets s) p"
    by (auto simp: stakes_ok_def get_or_0_def split: option.splits)
  from sums_moved(2) [OF assms(1) 1(1) 1(5) 1(2) 1(3)] old assms(2) 1(4)
  have "bets_sum s' \<le> pot s'" by (simp add: stakes_ok_def)
  moreover from assms(2) c assms(3) 1(2)
  have "\<forall>q d. player_chips s' q = Some d \<longrightarrow> 0 \<le> d" by (auto simp: stakes_ok_def)
  moreover from assms(2) c assms(3) 1(3)
  have "\<forall>q d. player_bets s' q = Some d \<longrightarrow> 0 \<le> d" by (auto simp: stakes_ok_def)
  ultimately show ?thesis using assms(2) 1(7) 1(8) by (simp add: stakes_ok_def)
qed

lemma post_blind_table:
  assumes "post_blind s p blind = Inr s'"
  shows "player_ids s' = player_ids s \<and> small_blind s' = small_blind s \<and>
         big_blind s' = big_blind s"
  using assms by (cases rule: post_blind_effect) simp

lemma post_blinds_kept:
  assumes "seated s" "post_blinds s = Inr s'"
  shows "seated s' \<and> pot s' + chips_sum s' = pot s + chips_sum s \<and>
         player_ids s' = player_ids s \<and> small_blind s' = small_blind s \<and>
         big_blind s' = big_blind s"
proof (cases "length (active_players s) < 2")
  case True
  with assms show ?thesis by (simp add: post_blinds_def)
next
  case False
  with assms(2) obtain s1 where
    s1: "post_blind s (small_blind_player s) (small_blind s) = Inr s1" and
    s': "post_blind s1 (big_blind_player s) (big_blind s) = Inr s'"
    by (auto simp: post_blinds_def split: sum.splits)
  from post_blind_kept [OF assms(1) s1] have "seated s1" by simp
  from post_blind_kept [OF this s'] post_blind_kept [OF assms(1) s1]
    post_blind_table [OF s1] post_blind_table [OF s']
  show ?thesis by simp
qed

lemma post_blinds_stakes:
  assumes "seated s" "stakes_ok s" "0 \<le> small_blind s" "post_blinds s = Inr s'"
  shows "stakes_ok s'"
proof (cases "length (active_players s) < 2")
  case True
  with assms show ?thesis by (simp add: post_blinds_def)
next
  case False
  with assms(4) obtain s1 where
    s1: "post_blind s (small_blind_player s) (small_blind s) = Inr s1" and
    s': "post_blind s1 (big_blind_player s) (big_blind s) = Inr s'"
    by (auto simp: post_blinds_def split: sum.splits)
  from post_blind_kept [OF assms(1) s1] have seated1: "seated s1" by simp
  from post_blind_stakes [OF assms(1,2,3) s1] have ok1: "stakes_ok s1" .
  from assms(2) have "0 \<le> big_blind s" by (simp add: stakes_ok_def)
  from post_blind_stakes [OF seated1 ok1 this s'] show ?thesis .
qed

lemma start_hand_kept:
  assumes "seated s0" "start_hand s0 = Inr s"
  shows "table_kept s0 s \<and> pot s + chips_sum s = chips_sum s0"
proof -
  from assms(2) obtain r where r: "reset_hand s0 = Inr r" and s: "post_blinds r = Inr s"
    by (auto simp: start_hand_def split: sum.splits if_splits)
  from reset_hand_effect [OF r] have "chips_sum r = chips_sum s0" "pot r = 0"
    by (simp_all add: chips_sum_def)
  with post_blinds_kept [OF reset_hand_seated [OF assms(1) r] s] reset_hand_effect [OF r]
  show ?thesis by (simp add: table_kept_def)
qed

lemma start_hand_stakes:
  assumes "seated s0" "\<forall>p c. player_chips s0 p = Some c \<longrightarrow> 0 \<le> c"
    "0 \<le> small_blind s0" "0 \<le> big_blind s0" "start_hand s0 = Inr s"
  shows "stakes_ok s"
proof -
  from assms(5) obtain r where r: "reset_hand s0 = Inr r" and s: "post_blinds r = Inr s"
    by (auto simp: start_hand_def split: sum.splits if_splits)
  note e = reset_hand_effect [OF r]
  from e have "bets_sum r = 0" by (simp add: bets_sum_def dict_sum_dict_of_0)
  with e assms(2,4) have "stakes_ok r"
    by (auto simp: stakes_ok_def dict_of_def split: if_splits)
  moreover from e assms(3) have "0 \<le> small_blind r" by simp
  ultimately show ?thesis
    using post_blinds_stakes [OF reset_hand_seated [OF assms(1) r]] s by blast
qed

subsection \<open>The invariants along a hand\<close>

lemma process_action_stakes:
  assumes "seated s" "stakes_ok s" "process_action s p a amount = Inr s'"
  shows "stakes_ok s'"
  using assms(3)
proof (cases rule: process_action_effect)
  case still
  with assms(2) process_action_frame [OF assms(3)] show ?thesis
    by (simp add: stakes_ok_def bets_sum_def)
next
  case (moved b c x)
  from assms(2) moved(1,2) have c: "0 \<le> c" and b: "0 \<le> b"
    by (auto simp: stakes_ok_def)
  from assms(2) have "0 \<le> current_bet s" "0 \<le> big_blind s" by (simp_all add: stakes_ok_def)
  with moved(7) c b have new: "0 \<le> b + x" "0 \<le> current_bet s'" by simp_all
  from process_action_sums [OF assms(1,3)] assms(2) have "bets_sum s' \<le> pot s'"
    by (simp add: stakes_ok_def)
  moreover from assms(2) moved(3,4)
  have "\<forall>q d. player_chips s' q = Some d \<longrightarrow> 0 \<le> d" by (auto simp: stakes_ok_def)
  moreover from assms(2) new(1) moved(5)
  have "\<forall>q d. player_bets s' q = Some d \<longrightarrow> 0 \<le> d" by (auto simp: stakes_ok_def)
  ultimately show ?thesis
    using assms(2) new(2) process_action_frame [OF assms(3)] by (simp add: stakes_ok_def)
qed

lemma bets_sum_nonneg: "stakes_ok s \<Longrightarrow> 0 \<le> bets_sum s"
  unfolding bets_sum_def stakes_ok_def by (blast intro: dict_sum_nonneg)

lemma pot_nonneg: "stakes_ok s \<Longrightarrow> 0 \<le> pot s"
  using bets_sum_nonneg [of s] by (simp add: stakes_ok_def)

lemma start_betting_round_effect:
  assumes "start_betting_round s = Inr s'"
  shows "player_ids s' = player_ids s \<and> small_blind s' = small_blind s \<and>
         big_blind s' = big_blind s \<and> player_chips s' = player_chips s \<and>
         pot s' = pot s \<and> active_players s' = active_players s \<and>
         (player_bets s' = player_bets s \<and> current_bet s' = current_bet s \<or>
          player_bets s' = dict_of (player_ids s) 0 \<and> current_bet s' = 0)"
  using assms by (auto simp: start_betting_round_def split: if_splits)

lemma start_betting_round_seated:
  assumes "seated s" "start_betting_round s = Inr s'"
  shows "seated s'"
proof -
  note e = start_betting_round_effect [OF assms(2)]
  from e consider "player_bets s' = player_bets s" | "player_bets s' = dict_of (player_ids s) 0"
    by blast
  then show ?thesis
  proof cases
    case 1
    with e assms(1) show ?thesis by (simp add: seated_def)
  next
    case 2
    with e assms(1) show ?thesis by (simp add: seated_def dom_dict_of)
  qed
qed

lemma start_betting_round_stakes:
  assumes "stakes_ok s" "start_betting_round s = Inr s'"
  shows "stakes_ok s'"
proof -
  note e = start_betting_round_effect [OF assms(2)]
  from e consider "player_bets s' = player_bets s" "current_bet s' = current_bet s"
    | "player_bets s' = dict_of (player_ids s) 0" "current_bet s' = 0"
    by blast
  then show ?thesis
  proof cases
    case 1
    with e assms(1) show ?thesis by (simp add: stakes_ok_def bets_sum_def)
  next
    case 2
    with e have "bets_sum s' = 0" by (simp add: bets_sum_def dict_sum_dict_of_0)
    with 2 e assms(1) pot_nonneg [OF assms(1)] show ?thesis
      by (auto simp: stakes_ok_def dict_of_def split: if_splits)
  qed
qed

lemma advance_to_next_player_effect:
  assumes "advance_to_next_player s = Inr s'"
  shows "player_ids s' = player_ids s \<and> small_blind s' = small_blind s \<and>
         big_blind s' = big_blind s \<and> player_chips s' = player_chips s \<and>
         player_bets s' = player_bets s \<and> pot s' = pot s \<and>
         current_bet s' = current_bet s \<and> active_players s' = active_players s"
  using assms by (auto simp: advance_to_next_player_def split: if_splits option.splits)

lemma advance_to_next_round_effect:
  "player_ids (advance_to_next_round s) = player_ids s \<and>
   small_blind (advance_to_next_round s) = small_blind s \<and>
   big_blind (advance_to_next_round s) = big_blind s \<and>
   player_chips (advance_to_next_round s) = player_chips s \<and>
   player_bets (advance_to_next_round s) = player_bets s \<and>
   pot (advance_to_next_round s) = pot s \<and>
   current_bet (advance_to_next_round s) = current_bet s \<and>
   active_players (advance_to_next_round s) = active_players s"
  by (simp add: advance_to_next_round_def)

lemma in_hand_kept:
  assumes "seated s0" "in_hand s0 s"
  shows "table_kept s0 s \<and> pot s + chips_sum s = chips_sum s0"
  using assms(2)
proof (induction rule: in_hand.induct)
  case (started s)
  with assms(1) show ?case by (simp add: start_hand_kept)
next
  case (round_started s s')
  then have "seated s" by (simp add: table_kept_def)
  from start_betting_round_seated [OF this round_started(2)]
    start_betting_round_effect [OF round_started(2)] round_started(3)
  show ?case by (auto simp: table_kept_def chips_sum_def)
next
  case (acted s p a amount s')
  then have "seated s" by (simp add: table_kept_def)
  from process_action_seated [OF this acted(2)] process_action_sums [OF this acted(2)]
    process_action_frame [OF acted(2)] acted(3)
  show ?case by (simp add: table_kept_def)
next
  case (next_player s s')
  with advance_to_next_player_effect [OF next_player(2)] show ?case
    by (auto simp: table_kept_def chips_sum_def seated_def)
next
  case (next_round s)
  with advance_to_next_round_effect [of s] show ?case
    by (auto simp: table_kept_def chips_sum_def seated_def)
qed

lemma in_hand_stakes:
  assumes "seated s0" "\<forall>p c. player_chips s0 p = Some c \<longrightarrow> 0 \<le> c"
    "0 \<le> small_blind s0" "0 \<le> big_blind s0" "in_hand s0 s"
  shows "stakes_ok s"
  using assms(5)
proof (induction rule: in_hand.induct)
  case (started s)
  with assms show ?case by (simp add: start_hand_stakes)
next
  case (round_started s s')
  then show ?case by (simp add: start_betting_round_stakes)
next
  case (acted s p a amount s')
  from in_hand_kept [OF assms(1) acted(1)] have "seated s" by (simp add: table_kept_def)
  with acted show ?case by (simp add: process_action_stakes)
next
  case (next_player s s')
  with advance_to_next_player_effect [of s s'] show ?case
    by (auto simp: stakes_ok_def bets_sum_def)
next
  case (next_round s)
  with advance_to_next_round_effect [of s] show ?case
    by (auto simp: stakes_ok_def bets_sum_def)
qed

subsection \<open>Payout\<close>

lemma paid_after_first:
  assumes "q \<notin> set qs" "m q = Some c"
  shows "(\<lambda>p. if p \<in> set qs then Some (get_or_0 (m(q \<mapsto> c + w)) p + w)
               else (m(q \<mapsto> c + w)) p) =
         (\<lambda>p. if p \<in> set (q # qs) then Some (get_or_0 m p + w) else m p)"
  using assms by (auto simp: get_or_0_def)

lemma pay_winners_effect:
  "distinct ws \<Longrightarrow> set ws \<subseteq> dom m \<Longrightarrow>
   pay_winners m w ws = Inr (\<lambda>p. if p \<in> set ws then Some (get_or_0 m p + w) else m p)"
proof (induction ws arbitrary: m)
  case Nil
  then show ?case by simp
next
  case (Cons q qs)
  then obtain c where c: "m q = Some c" by auto
  from Cons.prems have q: "q \<notin> set qs" and "distinct qs" "set qs \<subseteq> dom (m(q \<mapsto> c + w))"
    by auto
  from Cons.IH [OF this(2,3)] paid_after_first [of q qs m c w, OF q c]
  have "pay_winners (m(q \<mapsto> c + w)) w qs =
          Inr (\<lambda>p. if p \<in> set (q # qs) then Some (get_or_0 m p + w) else m p)"
    by (rule trans [OF _ arg_cong])
  moreover from c have "pay_winners m w (q # qs) = pay_winners (m(q \<mapsto> c + w)) w qs"
    by simp
  ultimately show ?case by (rule trans [rotated])
qed

lemma pay_winners_sum:
  "distinct ids \<Longrightarrow> set ws \<subseteq> set ids \<Longrightarrow> pay_winners m w ws = Inr m' \<Longrightarrow>
   dict_sum m' ids = dict_sum m ids + w * int (length ws)"
proof (induction ws arbitrary: m)
  case Nil
  then show ?case by simp
next
  case (Cons q qs)
  from Cons.prems(3) obtain c where c: "m q = Some c"
    and r: "pay_winners (m(q \<mapsto> c + w)) w qs = Inr m'"
    by (auto split: option.splits)
  define m1 where "m1 = m(q \<mapsto> c + w)"
  from Cons.prems have q: "q \<in> set ids" and qs: "set qs \<subseteq> set ids" by auto
  from r have "pay_winners m1 w qs = Inr m'" by (simp add: m1_def)
  from Cons.IH [OF Cons.prems(1) qs this]
  have 1: "dict_sum m' ids = dict_sum m1 ids + w * int (length qs)" .
  from dict_sum_upd_in [OF Cons.prems(1) q, of m "c + w"] c
  have 2: "dict_sum m1 ids = dict_sum m ids + w"
    by (simp add: m1_def get_or_0_def)
  from 1 2 show ?case by (simp add: algebra_simps)
qed

lemma pay_winners_nonneg:
  "0 \<le> w \<Longrightarrow> \<forall>p c. m p = Some c \<longrightarrow> 0 \<le> c \<Longrightarrow> pay_winners m w ws = Inr m' \<Longrightarrow>
   \<forall>p c. m' p = Some c \<longrightarrow> 0 \<le> c"
proof (induction ws arbitrary: m)
  case Nil
  then show ?case by simp
next
  case (Cons q qs)
  from Cons.prems(3) obtain c where c: "m q = Some c"
    and r: "pay_winners (m(q \<mapsto> c + w)) w qs = Inr m'"
    by (auto split: option.splits)
  from Cons.prems(1,2) c have "\<forall>p d. (m(q \<mapsto> c + w)) p = Some d \<longrightarrow> 0 \<le> d" by auto
  from Cons.IH [OF Cons.prems(1) this r] show ?case .
qed

lemma distribute_pot_nonneg:
  assumes "stakes_ok s" "distribute_pot s winners = Inr s'"
  shows "\<forall>p c. player_chips s' p = Some c \<longrightarrow> 0 \<le> c"
proof (cases "winners = []")
  case True
  with assms show ?thesis by (simp add: distribute_pot_def stakes_ok_def)
next
  case False
  with assms(2) obtain m where
    m: "pay_winners (player_chips s) (pot s div int (length winners)) winners = Inr m"
    and s': "player_chips s' = m"
    by (auto simp: distribute_pot_def split: sum.splits)
  from pot_nonneg [OF assms(1)] False have "0 \<le> pot s div int (length winners)"
    by (simp add: pos_imp_zdiv_nonneg_iff)
  from pay_winners_nonneg [OF this _ m] assms(1) s' show ?thesis
    by (simp add: stakes_ok_def)
qed

lemma settle_nonneg:
  assumes "stakes_ok s" "settle s evaluated = Inr s'"
  shows "\<forall>p c. player_chips s' p = Some c \<longrightarrow> 0 \<le> c"
proof -
  from assms(2) obtain s1 where s1: "distribute_pot s (determine_winners s evaluated) = Inr s1"
    and "player_chips s' = player_chips s1"
    by (auto simp: settle_def split: sum.splits if_splits)
  with distribute_pot_nonneg [OF assms(1) s1] show ?thesis by simp
qed

lemma distribute_pot_paid:
  assumes "winners \<noteq> []" "distinct winners" "set winners \<subseteq> set (player_ids s)" "seated s"
  shows "\<exists>s'. distribute_pot s winners = Inr s' \<and>
           (\<forall>p. player_chips s' p =
                  (if p \<in> set winners
                   then Some (get_or_0 (player_chips s) p + pot s div int (length winners))
                   else player_chips s p)) \<and>
           pot s' = 0 \<and>
           chips_sum s' = chips_sum s + pot s - pot s mod int (length winners)"
proof -
  let ?w = "pot s div int (length winners)"
  let ?m = "\<lambda>p. if p \<in> set winners then Some (get_or_0 (player_chips s) p + ?w)
                 else player_chips s p"
  let ?s' = "s\<lparr> player_chips := ?m, pot := 0 \<rparr>"
  from assms(3,4) have "set winners \<subseteq> dom (player_chips s)" by (simp add: seated_def)
  from pay_winners_effect [OF assms(2) this]
  have pay: "pay_winners (player_chips s) ?w winners = Inr ?m" .
  with assms(1) have run: "distribute_pot s winners = Inr ?s'"
    by (simp add: distribute_pot_def)
  from assms(4) have "distinct (player_ids s)" by (simp add: seated_def)
  from pay_winners_sum [OF this assms(3) pay]
  have "chips_sum ?s' = chips_sum s + ?w * int (length winners)"
    by (simp add: chips_sum_def)
  also have "?w * int (length winners) = pot s - pot s mod int (length winners)"
    by (simp add: minus_mod_eq_div_mult)
  finally have "chips_sum ?s' = chips_sum s + pot s - pot s mod int (length winners)" by simp
  with run show ?thesis by simp
qed

text \<open>
  C9. When the pot is paid out to k >= 1 distinct seated winners, each winner's stack grows
  by exactly pot div k, every other stack is unchanged, the pot is 0 afterwards, and the
  stacks together grow by the pot less the remainder pot mod k, which nobody receives.
\<close>

theorem distribute_pot_split:
  assumes "winners \<noteq> []" "distinct winners" "set winners \<subseteq> set (player_ids s)" "seated s"
  shows "\<exists>s'. distribute_pot s winners = Inr s' \<and>
           (\<forall>p. player_chips s' p =
                  (if p \<in> set winners
                   then Some (get_or_0 (player_chips s) p + pot s div int (length winners))
                   else player_chips s p)) \<and>
           pot s' = 0 \<and>
           chips_sum s' = chips_sum s + pot s - pot s mod int (length winners)"
  using assms by (rule distribute_pot_paid)

theorem distribute_pot_split_witness:
  "\<exists>s'. distribute_pot three_way_tie [''P0'', ''P1'', ''P2''] = Inr s' \<and>
         player_chips s' ''P0'' = Some (960 + 33) \<and>
         player_chips s' ''P1'' = Some (970 + 33) \<and>
         player_chips s' ''P2'' = Some (970 + 33) \<and>
         pot s' = 0 \<and>
         chips_sum s' = chips_sum three_way_tie + 100 - 1"
proof -
  have "seated three_way_tie"
    by (auto simp: seated_def three_way_tie_def init_def dict_of_def split: if_splits)
  from distribute_pot_split [of "[''P0'', ''P1'', ''P2'']" three_way_tie, OF _ _ _ this]
  obtain s' where "distribute_pot three_way_tie [''P0'', ''P1'', ''P2''] = Inr s'"
    and "\<forall>p. player_chips s' p =
           (if p \<in> set [''P0'', ''P1'', ''P2'']
            then Some (get_or_0 (player_chips three_way_tie) p +
                       pot three_way_tie div int (length [''P0'', ''P1'', ''P2'']))
            else player_chips three_way_tie p)"
    and "pot s' = 0"
    and "chips_sum s' = chips_sum three_way_tie + pot three_way_tie -
           pot three_way_tie mod int (length [''P0'', ''P1'', ''P2''])"
    by (auto simp: three_way_tie_def init_def)
  then show ?thesis
    by (intro exI [of _ s']) (simp add: three_way_tie_def init_def get_or_0_def)
qed

subsection \<open>The three-player hand\<close>

lemma dict_of_three:
  "dict_of [''P0'', ''P1'', ''P2''] v = [''P0'' \<mapsto> v, ''P1'' \<mapsto> v, ''P2'' \<mapsto> v]"
  by (rule ext) (simp add: dict_of_def)

lemma seated_three_players: "seated three_players"
  by (simp add: seated_def three_players_def init_def dom_dict_of)

lemma chips_sum_three_players: "chips_sum three_players = 3000"
  by (simp add: chips_sum_def dict_sum_def get_or_0_def three_players_def init_def dict_of_def)

lemma start_hand_three_players: "start_hand three_players = Inr after_blinds"
  by (simp add: start_hand_def reset_hand_def post_blinds_def post_blind_def
      small_blind_player_def big_blind_player_def three_players_def init_def
      after_blinds_def dict_of_three)

lemma start_betting_round_after_blinds: "start_betting_round after_blinds = Inr preflop_open"
  by (simp add: start_betting_round_def preflop_open_def after_blinds_def three_players_def
      init_def)

lemma p1_goes_all_in: "process_action preflop_open ''P1'' ALL_IN 0 = Inr p1_all_in"
  by (simp add: process_action_def apply_action_def is_valid_action_def get_or_0_def
      p1_all_in_def preflop_open_def after_blinds_def three_players_def init_def fun_eq_iff)

text \<open>
  C10. In every state of a hand from the posting of the blinds to the end of the betting,
  the pot plus the stacks of all seated players equals the stacks at the start of the hand:
  every wager enters the pot when it is applied, so bet_this_round is counted inside the
  pot and not in addition to it.
\<close>

theorem pot_plus_stacks_constant:
  assumes "seated s0" "in_hand s0 s"
  shows "pot s + chips_sum s = chips_sum s0"
  using in_hand_kept [OF assms] by simp

theorem pot_plus_stacks_constant_witness:
  "in_hand three_players p1_all_in \<and> pot p1_all_in = 1020 \<and> chips_sum p1_all_in = 1980 \<and>
   pot p1_all_in + chips_sum p1_all_in = 3000"
proof -
  have "in_hand three_players after_blinds"
    by (rule in_hand.started) (rule start_hand_three_players)
  then have "in_hand three_players preflop_open"
    by (rule in_hand.round_started) (rule start_betting_round_after_blinds)
  then have r: "in_hand three_players p1_all_in"
    by (rule in_hand.acted) (rule p1_goes_all_in)
  have "chips_sum p1_all_in = 1980"
    by (simp add: chips_sum_def dict_sum_def get_or_0_def p1_all_in_def preflop_open_def
        after_blinds_def three_players_def init_def)
  moreover have "pot p1_all_in = 1020"
    by (simp add: p1_all_in_def)
  ultimately show ?thesis
    using r pot_plus_stacks_constant [OF seated_three_players r] chips_sum_three_players
    by simp
qed

text \<open>
  C2. In every state of a hand (after the reset, during the betting, after the payout) no
  stack is negative, when the hand starts with non-negative stacks and blinds: blinds,
  calls, raises (also those that become an all-in) and all-ins never take more than the
  stack holds.
\<close>

theorem no_negative_stacks:
  assumes "seated s0" "\<forall>p c. player_chips s0 p = Some c \<longrightarrow> 0 \<le> c"
    "0 \<le> small_blind s0" "0 \<le> big_blind s0"
    "during_hand s0 s" "player_chips s p = Some c"
  shows "0 \<le> c"
  using assms(5)
proof (cases rule: during_hand.cases)
  case reset
  from reset_hand_effect [OF this] assms(2,6) show ?thesis by simp
next
  case betting
  from in_hand_stakes [OF assms(1-4) this] assms(6) show ?thesis
    by (simp add: stakes_ok_def)
next
  case (paid t winners)
  from distribute_pot_nonneg [OF in_hand_stakes [OF assms(1-4) paid(1)] paid(2)] assms(6)
  show ?thesis by simp
next
  case (settled t evaluated)
  from settle_nonneg [OF in_hand_stakes [OF assms(1-4) settled(1)] settled(2)] assms(6)
  show ?thesis by simp
qed

theorem no_negative_stacks_witness:
  "during_hand three_players p1_all_in \<and> player_chips p1_all_in ''P1'' = Some 0 \<and>
   player_chips p1_all_in ''P2'' = Some 980"
proof -
  have "in_hand three_players after_blinds"
    by (rule in_hand.started) (rule start_hand_three_players)
  then have "in_hand three_players preflop_open"
    by (rule in_hand.round_started) (rule start_betting_round_after_blinds)
  then have "in_hand three_players p1_all_in"
    by (rule in_hand.acted) (rule p1_goes_all_in)
  then have d: "during_hand three_players p1_all_in"
    by (rule during_hand.betting)
  have c: "\<forall>p c. player_chips three_players p = Some c \<longrightarrow> 0 \<le> c"
    by (simp add: three_players_def init_def dict_of_def)
  have b: "0 \<le> small_blind three_players" "0 \<le> big_blind three_players"
    by (simp_all add: three_players_def init_def)
  have 1: "player_chips p1_all_in ''P1'' = Some 0"
    and 2: "player_chips p1_all_in ''P2'' = Some 980"
    by (simp_all add: p1_all_in_def)
  from no_negative_stacks [OF seated_three_players c b d 1]
    no_negative_stacks [OF seated_three_players c b d 2] d 1 2
  show ?thesis by simp
qed

text \<open>
  C5. A requested action that fails validation is processed as FOLD with amount 0: for a
  seated player the call returns without an exception, with the result of folding; the
  player is in the folded list and no longer in the active list, and the pot and all
  stacks and bets are as before.
\<close>

theorem invalid_action_folds:
  assumes "\<not> is_valid_action s p a amount" "player_bets s p = Some b"
    "distinct (active_players s)"
  shows "\<exists>s'. process_action s p a amount = Inr s' \<and>
           process_action s p FOLD 0 = Inr s' \<and>
           p \<in> set (folded_players s') \<and> p \<notin> set (active_players s') \<and>
           active_players s' = remove1 p (active_players s) \<and>
           pot s' = pot s \<and> player_chips s' = player_chips s \<and>
           player_bets s' = player_bets s \<and> current_bet s' = current_bet s"
  using assms by (simp add: process_action_def apply_action_def)

theorem invalid_action_folds_witness:
  "\<not> is_valid_action preflop_open ''P1'' CHECK 0 \<and>
   process_action preflop_open ''P1'' CHECK 0 = Inr p1_checks_folded \<and>
   pot p1_checks_folded = 30 \<and>
   player_chips p1_checks_folded ''P1'' = Some 990 \<and>
   player_bets p1_checks_folded ''P1'' = Some 10"
proof -
  have v: "\<not> is_valid_action preflop_open ''P1'' CHECK 0"
    by (simp add: is_valid_action_def get_or_0_def preflop_open_def after_blinds_def
        three_players_def init_def)
  have b: "player_bets preflop_open ''P1'' = Some 10"
    by (simp add: preflop_open_def after_blinds_def)
  have d: "distinct (active_players preflop_open)"
    by (simp add: preflop_open_def after_blinds_def three_players_def init_def)
  from invalid_action_folds [OF v b d] obtain s' where
    s': "process_action preflop_open ''P1'' CHECK 0 = Inr s'"
    and f: "process_action preflop_open ''P1'' FOLD 0 = Inr s'"
    by blast
  have "process_action preflop_open ''P1'' FOLD 0 = Inr p1_checks_folded"
    by (simp add: process_action_def apply_action_def is_valid_action_def
        p1_checks_folded_def preflop_open_def after_blinds_def three_players_def init_def)
  with f s' have "process_action preflop_open ''P1'' CHECK 0 = Inr p1_checks_folded"
    by simp
  with v show ?thesis
    by (simp add: p1_checks_folded_def preflop_open_def after_blinds_def)
qed

subsection \<open>Blind seats\<close>










lemmas limp_states = limp1_def limp2_def limp3_def preflop_open_def after_blinds_def
  three_players_def init_def

lemmas step_defs = betting_step_def get_game_state_def get_current_player_def
  process_action_def apply_action_def is_valid_action_def get_or_0_def
  advance_to_next_player_def

lemma first_to_act: "get_current_player preflop_open = Inr ''P1''"
  by (simp add: get_current_player_def limp_states)

lemma limp_step1: "betting_step preflop_open ''P1'' (CALL, 0) = Inr limp1"
  by (simp add: step_defs limp_states fun_eq_iff)

lemma second_to_act: "get_current_player limp1 = Inr ''P2''"
  by (simp add: get_current_player_def limp_states)

lemma limp_step2: "betting_step limp1 ''P2'' (CHECK, 0) = Inr limp2"
  by (simp add: step_defs limp_states fun_eq_iff)

lemma third_to_act: "get_current_player limp2 = Inr ''P0''"
  by (simp add: get_current_player_def limp_states)

lemma limp_step3: "betting_step limp2 ''P0'' (CALL, 0) = Inr limp3"
  by (simp add: step_defs limp_states fun_eq_iff)

lemma limp_open: "is_betting_round_complete preflop_open = Inr False"
  "is_betting_round_complete limp1 = Inr False"
  "is_betting_round_complete limp2 = Inr False"
  by (simp_all add: is_betting_round_complete_def limp_states)

lemma limp_closed: "is_betting_round_complete limp3 = Inr True"
  by (simp add: is_betting_round_complete_def limp_states)

lemma limp_round:
  "run_betting_round after_blinds [(CALL, 0), (CHECK, 0), (CALL, 0)] = Some (Inr (limp3, []))"
  by (simp add: run_betting_round_def start_betting_round_after_blinds limp_open limp_closed
      first_to_act second_to_act third_to_act limp_step1 limp_step2 limp_step3)


lemmas fold_states = p1_folded_def big_blind_skipped_def out_of_turn_def limp_states

lemmas short_states = short_table_def short_blinds_def short_shove_def short_raise_def init_def

lemma fold_step1: "betting_step preflop_open ''P1'' (FOLD, 0) = Inr p1_folded"
  by (simp add: step_defs fold_states fun_eq_iff)

lemma fold_next: "get_current_player p1_folded = Inr ''P0''"
  by (simp add: get_current_player_def fold_states)

lemma fold_open: "is_betting_round_complete p1_folded = Inr False"
  by (simp add: is_betting_round_complete_def fold_states)

lemma fold_step2: "betting_step p1_folded ''P0'' (CALL, 0) = Inr big_blind_skipped"
  by (simp add: step_defs fold_states fun_eq_iff)

lemma fold_closed: "is_betting_round_complete big_blind_skipped = Inr True"
  by (simp add: is_betting_round_complete_def fold_states)

lemma fold_round:
  "run_betting_round after_blinds [(FOLD, 0), (CALL, 0)] = Some (Inr (big_blind_skipped, []))"
  by (simp add: run_betting_round_def start_betting_round_after_blinds limp_open
      first_to_act fold_step1 fold_next fold_open fold_step2 fold_closed)

lemma view_open: "get_game_state preflop_open = Inr preflop_view"
  by (simp add: get_game_state_def get_current_player_def preflop_view_def limp_states)

lemma short_start: "start_hand short_table = Inr short_blinds"
  by (simp add: start_hand_def reset_hand_def post_blinds_def post_blind_def
      small_blind_player_def big_blind_player_def short_states dict_of_def fun_eq_iff)

lemma short_round_open:
  "start_betting_round short_blinds =
     Inr (short_blinds \<lparr> players_acted := {}, current_player_index := Some 1 \<rparr>)"
  by (simp add: start_betting_round_def short_states)

lemma short_step1:
  "betting_step (short_blinds \<lparr> players_acted := {}, current_player_index := Some 1 \<rparr>)
     ''P1'' (ALL_IN, 0) = Inr short_shove"
  by (simp add: step_defs short_states fun_eq_iff)

lemma short_step2: "process_action short_shove ''P0'' RAISE 100 = Inr short_raise"
  by (simp add: step_defs short_states fun_eq_iff)

lemma short_closed: "is_betting_round_complete short_raise = Inr True"
  by (simp add: is_betting_round_complete_def short_states)


text \<open>
  C7, as the spec states it: after the blinds of the three-player hand the first player to
  act would be P0. The engine asks P1, the small blind.
\<close>

theorem limp_order_counterexample:
  "start_hand three_players = Inr after_blinds \<and>
   start_betting_round after_blinds = Inr preflop_open \<and>
   get_current_player preflop_open = Inr ''P1'' \<and>
   get_current_player preflop_open \<noteq> Inr ''P0''"
  by (simp add: start_hand_three_players start_betting_round_after_blinds first_to_act)

text \<open>
  C7, amended. Three players P0, P1, P2 with 1000 chips each, blinds 10 and 20, dealer P0:
  after the blinds P1 has posted 10, P2 has posted 20 and the current bet is 20. The preflop
  action runs in the order P1, P2, P0: P1 calls 10 more (pot 40), P2 checks, P0 calls 20
  (pot 60); then the round is complete, with pot 60 and every bet equal to 20.
\<close>

theorem limp_scenario:
  "start_hand three_players = Inr after_blinds \<and>
   player_bets after_blinds ''P1'' = Some 10 \<and>
   player_bets after_blinds ''P2'' = Some 20 \<and>
   current_bet after_blinds = 20 \<and>
   start_betting_round after_blinds = Inr preflop_open \<and>
   get_current_player preflop_open = Inr ''P1'' \<and>
   betting_step preflop_open ''P1'' (CALL, 0) = Inr limp1 \<and>
   player_bets limp1 ''P1'' = Some 20 \<and> pot limp1 = 40 \<and>
   is_betting_round_complete limp1 = Inr False \<and>
   get_current_player limp1 = Inr ''P2'' \<and>
   betting_step limp1 ''P2'' (CHECK, 0) = Inr limp2 \<and>
   pot limp2 = 40 \<and>
   is_betting_round_complete limp2 = Inr False \<and>
   get_current_player limp2 = Inr ''P0'' \<and>
   betting_step limp2 ''P0'' (CALL, 0) = Inr limp3 \<and>
   pot limp3 = 60 \<and>
   player_bets limp3 = [''P0'' \<mapsto> 20, ''P1'' \<mapsto> 20, ''P2'' \<mapsto> 20] \<and>
   is_betting_round_complete limp3 = Inr True \<and>
   run_betting_round after_blinds [(CALL, 0), (CHECK, 0), (CALL, 0)] = Some (Inr (limp3, []))"
proof -
  have "player_bets after_blinds ''P1'' = Some 10" "player_bets after_blinds ''P2'' = Some 20"
    "current_bet after_blinds = 20" "player_bets limp1 ''P1'' = Some 20" "pot limp1 = 40"
    "pot limp2 = 40" "pot limp3 = 60"
    "player_bets limp3 = [''P0'' \<mapsto> 20, ''P1'' \<mapsto> 20, ''P2'' \<mapsto> 20]"
    by (simp_all add: limp1_def limp2_def limp3_def after_blinds_def)
  then show ?thesis
    by (simp add: start_hand_three_players start_betting_round_after_blinds first_to_act
        second_to_act third_to_act limp_step1 limp_step2 limp_step3 limp_open limp_closed
        limp_round)
qed

text \<open>
  C3 on the code. In the three-player hand P1 folds and P0 calls: the round is judged
  complete although P2, active and with chips, has not acted. \<open>players_acted\<close> still
  holds the folded P1, so its size reaches the number of active players.
\<close>

theorem round_closes_before_all_acted:
  "run_betting_round after_blinds [(FOLD, 0), (CALL, 0)] = Some (Inr (big_blind_skipped, [])) \<and>
   is_betting_round_complete big_blind_skipped = Inr True \<and>
   active_players big_blind_skipped = [''P0'', ''P2''] \<and>
   players_acted big_blind_skipped = {''P0'', ''P1''} \<and>
   ''P2'' \<notin> players_acted big_blind_skipped \<and>
   player_chips big_blind_skipped ''P2'' = Some 980"
  by (simp add: fold_round fold_closed) (simp add: big_blind_skipped_def p1_folded_def)

text \<open>
  C4 on the code. P1 is all-in for 30 and P0, with 80 chips behind a bet of 20, raises to
  100: the raise takes the all-in branch, the current bet goes from 30 to 100, and
  \<open>players_acted\<close> keeps P1; the round is complete at once.
\<close>

theorem all_in_raise_keeps_acted_set:
  "start_hand short_table = Inr short_blinds \<and>
   start_betting_round short_blinds =
     Inr (short_blinds \<lparr> players_acted := {}, current_player_index := Some 1 \<rparr>) \<and>
   betting_step (short_blinds \<lparr> players_acted := {}, current_player_index := Some 1 \<rparr>)
     ''P1'' (ALL_IN, 0) = Inr short_shove \<and>
   current_bet short_shove = 30 \<and>
   is_valid_action short_shove ''P0'' RAISE 100 \<and>
   process_action short_shove ''P0'' RAISE 100 = Inr short_raise \<and>
   current_bet short_raise = 100 \<and>
   player_chips short_raise ''P0'' = Some 0 \<and>
   players_acted short_raise = {''P0'', ''P1''} \<and>
   players_acted short_raise \<noteq> {''P0''} \<and>
   is_betting_round_complete short_raise = Inr True"
proof -
  have "current_bet short_shove = 30" "current_bet short_raise = 100"
    "player_chips short_raise ''P0'' = Some 0" "players_acted short_raise = {''P0'', ''P1''}"
    "players_acted short_raise \<noteq> {''P0''}"
    by (auto simp: short_shove_def short_raise_def)
  moreover have "is_valid_action short_shove ''P0'' RAISE 100"
    by (simp add: is_valid_action_def get_or_0_def short_states)
  ultimately show ?thesis
    by (simp add: short_start short_round_open short_step1 short_step2 short_closed)
qed

text \<open>
  C6 on the code. P1 is the current player and P0, active, submits CALL: the helper
  \<open>validate_action\<close> of \<open>bot_api.py\<close> rejects it, the engine's \<open>is_valid_action\<close> accepts
  it, and \<open>process_action\<close> applies the call instead of folding P0.
\<close>

theorem out_of_turn_call_applied:
  "get_current_player preflop_open = Inr ''P1'' \<and>
   get_game_state preflop_open = Inr preflop_view \<and>
   validate_action CALL 0 preflop_view ''P0'' = Inr False \<and>
   is_valid_action preflop_open ''P0'' CALL 0 \<and>
   process_action preflop_open ''P0'' CALL 0 = Inr out_of_turn \<and>
   active_players out_of_turn = [''P0'', ''P1'', ''P2''] \<and>
   folded_players out_of_turn = [] \<and>
   player_bets out_of_turn ''P0'' = Some 20 \<and>
   pot out_of_turn = 50"
proof -
  have "validate_action CALL 0 preflop_view ''P0'' = Inr False"
    by (simp add: validate_action_def preflop_view_def)
  moreover have "is_valid_action preflop_open ''P0'' CALL 0"
    by (simp add: is_valid_action_def get_or_0_def limp_states)
  moreover have "process_action preflop_open ''P0'' CALL 0 = Inr out_of_turn"
    by (simp add: step_defs fold_states fun_eq_iff)
  moreover have "active_players out_of_turn = [''P0'', ''P1'', ''P2'']"
    "folded_players out_of_turn = []" "player_bets out_of_turn ''P0'' = Some 20"
    "pot out_of_turn = 50"
    by (simp_all add: fold_states)
  ultimately show ?thesis
    by (simp add: first_to_act view_open)
qed

subsection \<open>The states that play_hand passes through\<close>

lemma betting_step_in_hand:
  assumes "in_hand s0 s" "betting_step s p d = Inr s'"
  shows "in_hand s0 s'"
proof -
  from assms(2) obtain s1 where 1: "process_action s p (fst d) (snd d) = Inr s1"
    and 2: "advance_to_next_player s1 = Inr s'"
    by (auto simp: betting_step_def split: sum.splits option.splits)
  from assms(1) 1 have "in_hand s0 s1" by (rule in_hand.acted)
  then show ?thesis using 2 by (rule in_hand.next_player)
qed

lemma betting_loop_in_hand:
  "in_hand s0 s \<Longrightarrow> betting_loop s ds = Some (Inr (s', ds')) \<Longrightarrow> in_hand s0 s'"
proof (induction ds arbitrary: s)
  case Nil
  then show ?case
    by (auto split: sum.splits bool.splits if_splits)
next
  case (Cons d ds)
  show ?case
  proof (cases "is_betting_round_complete s = Inr False \<and>
                (\<exists>p t. get_current_player s = Inr p \<and> p \<noteq> [] \<and> betting_step s p d = Inr t)")
    case True
    then obtain p t where "is_betting_round_complete s = Inr False"
      "get_current_player s = Inr p" "p \<noteq> []" and t: "betting_step s p d = Inr t"
      by blast
    with Cons.prems(2) have "betting_loop t ds = Some (Inr (s', ds'))" by simp
    with Cons.IH [OF betting_step_in_hand [OF Cons.prems(1) t]] show ?thesis .
  next
    case False
    with Cons.prems(2) have "s' = s"
      by (auto split: sum.splits bool.splits if_splits)
    with Cons.prems(1) show ?thesis by simp
  qed
qed

lemma run_betting_round_in_hand:
  assumes "in_hand s0 s" "run_betting_round s ds = Some (Inr (s', ds'))"
  shows "in_hand s0 s'"
proof -
  from assms(2) obtain s1 where 1: "start_betting_round s = Inr s1"
    and 2: "betting_loop s1 ds = Some (Inr (s', ds'))"
    by (auto simp: run_betting_round_def split: sum.splits)
  from assms(1) 1 have "in_hand s0 s1" by (rule in_hand.round_started)
  then show ?thesis using 2 by (rule betting_loop_in_hand)
qed

lemma street_in_hand:
  assumes "in_hand s0 s" "street advance s ds = Some (Inr (s', ds'))"
  shows "in_hand s0 s'"
proof (cases "length (active_players s) > 1")
  case True
  from assms(1) have "in_hand s0 (if advance then advance_to_next_round s else s)"
    by (simp add: in_hand.next_round)
  moreover from True assms(2)
  have "run_betting_round (if advance then advance_to_next_round s else s) ds =
          Some (Inr (s', ds'))"
    by (simp add: street_def)
  ultimately show ?thesis by (rule run_betting_round_in_hand)
next
  case False
  with assms show ?thesis by (simp add: street_def)
qed

lemma and_then_street_in_hand:
  assumes "\<And>t ts. r = Some (Inr (t, ts)) \<Longrightarrow> in_hand s0 t"
    "and_then r (street advance) = Some (Inr (s', ds'))"
  shows "in_hand s0 s'"
proof -
  from assms(2) obtain t ts where r: "r = Some (Inr (t, ts))"
    and st: "street advance t ts = Some (Inr (s', ds'))"
    by (auto simp: and_then_def split: option.splits sum.splits)
  from assms(1) [OF r] st show ?thesis by (rule street_in_hand)
qed

lemma play_streets_in_hand:
  assumes "play_streets s0 ds = Some (Inr (s1, ds1))"
  shows "in_hand s0 s1"
proof -
  from assms obtain s where s: "start_hand s0 = Inr s"
    and r: "and_then (and_then (and_then (street False s ds) (street True)) (street True))
              (street True) = Some (Inr (s1, ds1))"
    by (auto simp: play_streets_def split: sum.splits)
  from s have 0: "in_hand s0 s" by (rule in_hand.started)
  have 1: "in_hand s0 t" if "street False s ds = Some (Inr (t, ts))" for t ts
    using 0 that by (rule street_in_hand)
  have 2: "in_hand s0 t"
    if "and_then (street False s ds) (street True) = Some (Inr (t, ts))" for t ts
    using 1 that by (rule and_then_street_in_hand)
  have 3: "in_hand s0 t"
    if "and_then (and_then (street False s ds) (street True)) (street True) =
          Some (Inr (t, ts))" for t ts
    using 2 that by (rule and_then_street_in_hand)
  from 3 r show ?thesis by (rule and_then_street_in_hand)
qed

text \<open>
  C1, amended. In every state of the betting, whatever the bots answer, the pot plus the
  stacks of all seated players, without the bets of the round, equals the stacks before the
  hand; the state in which play_hand reaches the showdown is such a state; and when the
  pot is then paid to k >= 1 distinct seated winners, play_hand returns with an empty pot
  and with stacks that sum to the stacks before the hand less the remainder pot mod k.
\<close>

theorem chips_after_hand:
  assumes "seated s0" "play_streets s0 ds = Some (Inr (s1, ds1))"
    "determine_winners s1 evaluated = winners"
    "winners \<noteq> []" "distinct winners" "set winners \<subseteq> set (player_ids s0)"
  shows "(\<forall>s. in_hand s0 s \<longrightarrow> pot s + chips_sum s = chips_sum s0) \<and>
         in_hand s0 s1 \<and>
         (\<exists>s'. play_hand s0 ds evaluated = Some (Inr s') \<and> pot s' = 0 \<and>
            chips_sum s' = chips_sum s0 - pot s1 mod int (length winners))"
proof -
  have inv: "\<forall>s. in_hand s0 s \<longrightarrow> pot s + chips_sum s = chips_sum s0"
    using in_hand_kept [OF assms(1)] by simp
  note reached = play_streets_in_hand [OF assms(2)]
  from in_hand_kept [OF assms(1) play_streets_in_hand [OF assms(2)]]
  have k: "seated s1" "player_ids s1 = player_ids s0"
    and c: "pot s1 + chips_sum s1 = chips_sum s0"
    by (simp_all add: table_kept_def)
  from assms(6) k(2) have "set winners \<subseteq> set (player_ids s1)" by simp
  from distribute_pot_paid [OF assms(4,5) this k(1)] obtain s2 where
    d: "distribute_pot s1 winners = Inr s2" and p: "pot s2 = 0"
    and s: "chips_sum s2 = chips_sum s1 + pot s1 - pot s1 mod int (length winners)"
    by blast
  from d assms(4) have ids: "player_ids s2 = player_ids s1"
    by (auto simp: distribute_pot_def split: sum.splits)
  with assms(4,6) k(2) have ne: "player_ids s2 \<noteq> []" by auto
  let ?s' = "s2\<lparr> dealer_button := (dealer_button s2 + 1) mod int (length (player_ids s2)) \<rparr>"
  from d ne assms(3) have "settle s1 evaluated = Inr ?s'"
    by (simp add: settle_def)
  with assms(2) have "play_hand s0 ds evaluated = Some (Inr ?s')"
    by (simp add: play_hand_def and_then_def)
  moreover have "pot ?s' = 0" using p by simp
  moreover have "chips_sum ?s' = chips_sum s0 - pot s1 mod int (length winners)"
    using s c by (simp add: chips_sum_def)
  ultimately show ?thesis using inv reached by blast
qed


lemma five_ten_streets:
  "play_streets five_ten fold_call_check_down = Some (Inr (five_ten_showdown, []))"
  by (simp add: play_streets_def and_then_def street_def run_betting_round_def
      start_betting_round_def advance_to_next_round_def is_betting_round_complete_def
      start_hand_def reset_hand_def post_blinds_def post_blind_def
      small_blind_player_def big_blind_player_def dict_of_def
      step_defs five_ten_def five_ten_showdown_def fold_call_check_down_def init_def
      fun_eq_iff)


lemma seated_five_ten: "seated five_ten"
  by (simp add: seated_def five_ten_def init_def dom_dict_of)

lemma chips_sum_five_ten: "chips_sum five_ten = 3000"
  by (simp add: chips_sum_def dict_sum_def get_or_0_def five_ten_def init_def dict_of_def)

lemma five_ten_settle: "settle five_ten_showdown [''P0'', ''P2''] = Inr five_ten_paid"
  by (simp add: settle_def determine_winners_def distribute_pot_def five_ten_paid_def
      five_ten_showdown_def five_ten_def init_def fun_eq_iff)

lemma five_ten_hand:
  "play_hand five_ten fold_call_check_down [''P0'', ''P2''] = Some (Inr five_ten_paid)"
  by (simp add: play_hand_def and_then_def five_ten_streets five_ten_settle)

theorem chips_after_hand_witness:
  "play_streets five_ten fold_call_check_down = Some (Inr (five_ten_showdown, [])) \<and>
   determine_winners five_ten_showdown [''P0'', ''P2''] = [''P0'', ''P2''] \<and>
   pot five_ten_showdown = 25 \<and>
   in_hand five_ten five_ten_showdown \<and>
   pot five_ten_showdown + chips_sum five_ten_showdown = 3000 \<and>
   (\<exists>s'. play_hand five_ten fold_call_check_down [''P0'', ''P2''] = Some (Inr s') \<and>
      pot s' = 0 \<and> chips_sum s' = 2999)"
proof -
  have w: "determine_winners five_ten_showdown [''P0'', ''P2''] = [''P0'', ''P2'']"
    by (simp add: determine_winners_def five_ten_showdown_def)
  have p: "pot five_ten_showdown = 25"
    by (simp add: five_ten_showdown_def)
  have "set [''P0'', ''P2''] \<subseteq> set (player_ids five_ten)"
    by (simp add: five_ten_def init_def)
  from chips_after_hand [OF seated_five_ten five_ten_streets w _ _ this]
  have "(\<forall>s. in_hand five_ten s \<longrightarrow> pot s + chips_sum s = chips_sum five_ten) \<and>
        in_hand five_ten five_ten_showdown \<and>
        (\<exists>s'. play_hand five_ten fold_call_check_down [''P0'', ''P2''] = Some (Inr s') \<and>
           pot s' = 0 \<and>
           chips_sum s' =
             chips_sum five_ten - pot five_ten_showdown mod int (length [''P0'', ''P2'']))"
    by simp
  then show ?thesis
    by (auto simp: five_ten_streets w p chips_sum_five_ten)
qed

text \<open>
  C1, as the spec states it. Posting the blinds of the three-player hand takes
  pot + chips + bets from 3000 to 3030, since the blinds are counted in the pot and in the
  bets; and a hand with blinds 5 and 10 in which P1 folds and the pot of 25 is split
  between P0 and P2 ends with stacks that sum to 2999.
\<close>

theorem chip_conservation_counterexample:
  "start_hand three_players = Inr after_blinds \<and>
   pot three_players + chips_sum three_players + bets_sum three_players = 3000 \<and>
   pot after_blinds + chips_sum after_blinds + bets_sum after_blinds = 3030 \<and>
   play_hand five_ten fold_call_check_down [''P0'', ''P2''] = Some (Inr five_ten_paid) \<and>
   chips_sum five_ten = 3000 \<and>
   chips_sum five_ten_paid = 2999"
proof -
  have "pot three_players + chips_sum three_players + bets_sum three_players = 3000"
    by (simp add: chips_sum_def bets_sum_def dict_sum_def get_or_0_def three_players_def
        init_def dict_of_def)
  moreover have "pot after_blinds + chips_sum after_blinds + bets_sum after_blinds = 3030"
    by (simp add: chips_sum_def bets_sum_def dict_sum_def get_or_0_def after_blinds_def
        three_players_def init_def)
  moreover have "chips_sum five_ten_paid = 2999"
    by (simp add: chips_sum_def dict_sum_def get_or_0_def five_ten_paid_def
        five_ten_showdown_def five_ten_def init_def)
  ultimately show ?thesis
    by (simp add: start_hand_three_players five_ten_hand chips_sum_five_ten)
qed

subsection \<open>What a complete round guarantees\<close>

lemma bets_matched_True:
  "bets_matched chips bets max_bet ps = Inr True \<Longrightarrow> p \<in> set ps \<Longrightarrow>
   chips p = Some c \<Longrightarrow> 0 < c \<Longrightarrow> bets p = Some max_bet"
  by (induction ps) (auto split: option.splits if_splits)

lemma complete_round_matched:
  assumes "is_betting_round_complete s = Inr True" "2 \<le> length (active_players s)"
    "p \<in> set (active_players s)" "player_chips s p = Some c" "0 < c"
  shows "player_bets s p = Some (current_bet s) \<and>
         length (active_players s) \<le> card (players_acted s)"
proof -
  from assms(1,2)
  have m: "bets_matched (player_chips s) (player_bets s) (current_bet s) (active_players s) =
          Inr True"
    and n: "length (active_players s) \<le> card (players_acted s)"
    by (auto simp: is_betting_round_complete_def split: if_splits)
  from m assms(3,4,5) have "player_bets s p = Some (current_bet s)"
    by (rule bets_matched_True)
  with n show ?thesis by simp
qed

end
